theory Spec2Isabelle
  imports Complex_Main "HOL-Library.List_Lexorder" "HOL-Library.Char_ord"
begin

section \<open>ArmLengthSimulation: model of \<open>src/index.ts\<close>\<close>

text \<open>
  The program enumerates the ways of splitting a total length into segment lengths,
  builds an arm for every ordering of every split, and ranks the arms by the torque
  they exert at their base.

  Numbers. A JavaScript \<open>number\<close> is an IEEE-754 double. The partition search only
  ever adds, subtracts and compares integers; these are modelled as \<open>int\<close>. Doubles
  represent the integers up to \<open>MAX_SAFE_INTEGER\<close> = \<open>2 ^ 53 - 1\<close> exactly, and only up
  to there do the model and the code agree: beyond it a difference is rounded
  (\<open>2 ^ 54 - 1\<close> is \<open>2 ^ 54\<close> again). Every statement below about arbitrary elements and
  sums therefore carries that bound. The physical quantities (mass, length, centre of
  mass, torque) are modelled as \<open>real\<close>, and \<open>Math.PI\<close> as \<open>pi\<close>: rounding is not part of
  the model. The bounds on a centre of mass are stated for arms of at most 1000
  segments of length at most 1000, and with the margin by which they hold; for very
  long segments the code's doubles differ from the reals by more than any margin (at
  a length of \<open>2 ^ 57\<close> the rounded centre of mass is the length itself).
  Division in JavaScript never raises (a zero divisor gives
  \<open>NaN\<close> or an infinity); in HOL \<open>x / 0 = 0\<close>. The statements below that give a value
  or a bound for a centre of mass also show that the divisor, the total mass, is not
  zero; the comparison of \<open>Arm.getCenterOfMass\<close> with the specification's formula
  equates two quotients with the same divisor.

  Names. Where a name of the source is taken in HOL, the model's name has a suffix:
  \<open>sumv\<close> is the parameter \<open>sum\<close>, \<open>end'\<close> the parameter \<open>end\<close>, \<open>range_list\<close> the
  function \<open>range\<close>, \<open>splice_at\<close> the method \<open>splice\<close>, \<open>length_of\<close> the field \<open>length\<close>.
\<close>

text \<open>\<open>Number.MAX_SAFE_INTEGER\<close>.\<close>

definition MAX_SAFE_INTEGER :: int where
  "MAX_SAFE_INTEGER = 2 ^ 53 - 1"

subsection \<open>Array helpers\<close>

text \<open>
  \<open>xs.reduce(f, init)\<close>: a left fold whose callback receives the accumulator, the
  element and the element's index.
\<close>

definition reduce :: "'a list \<Rightarrow> ('b \<Rightarrow> 'a \<Rightarrow> nat \<Rightarrow> 'b) \<Rightarrow> 'b \<Rightarrow> 'b" where
  "reduce xs f init = foldl (\<lambda>acc (x, index). f acc x index) init (zip xs [0..<length xs])"

lemma reduce_cong [fundef_cong]:
  "xs = ys \<Longrightarrow> init = init' \<Longrightarrow> (\<And>acc x i. x \<in> set ys \<Longrightarrow> f acc x i = g acc x i)
    \<Longrightarrow> reduce xs f init = reduce ys g init'"
  unfolding reduce_def
  by (rule foldl_cong) (auto dest: set_zip_leftD)

subsection \<open>Physical model\<close>

text \<open>
  The abstract class \<open>Massive\<close> and its three subclasses. A \<open>Segment\<close> carries its
  \<open>length\<close> and the \<open>materialMass\<close> its constructor computes; a \<open>Grabber\<close> has no
  fields; an \<open>Arm\<close> owns the array \<open>components\<close>.
\<close>

datatype massive =
    Segment (length_of: real) (materialMass: real)
  | Grabber
  | Arm (components: "massive list")

text \<open>Material constants of the \<open>Segment\<close> constructor.\<close>

definition SEGMENT_WIDTH :: real where
  "SEGMENT_WIDTH = 6"

definition MATERIAL_THICKNESS :: real where
  "MATERIAL_THICKNESS = 0.23622"

definition MATERIAL_DENSITY :: real where
  "MATERIAL_DENSITY = 0.0975437"

definition HOLE_AREA :: real where
  "HOLE_AREA = 3.9 + 1.1"

definition ROUND_AREA :: real where
  "ROUND_AREA = SEGMENT_WIDTH * SEGMENT_WIDTH - pi * (SEGMENT_WIDTH / 2) ^ 2"

definition TOTAL_NEGATIVE_AREA :: real where
  "TOTAL_NEGATIVE_AREA = HOLE_AREA + ROUND_AREA"

definition BEARING_EDGE_DISTANCE :: real where
  "BEARING_EDGE_DISTANCE = 3"

definition WEIGHT_REDUCTION_RATIO :: real where
  "WEIGHT_REDUCTION_RATIO = 0.4"

text \<open>\<open>new Segment(length)\<close>.\<close>

definition newSegment :: "real \<Rightarrow> massive" where
  "newSegment len =
    (let lengthWithEdges = len + 2 * BEARING_EDGE_DISTANCE;
         segmentArea = lengthWithEdges * SEGMENT_WIDTH - TOTAL_NEGATIVE_AREA;
         segmentVolume = segmentArea * MATERIAL_THICKNESS;
         segmentMass = segmentVolume * MATERIAL_DENSITY * WEIGHT_REDUCTION_RATIO
     in Segment len (segmentMass * 2))"

text \<open>Hardware constants of \<open>Segment.getMass\<close>.\<close>

definition CAN_SPARK_MAX :: real where
  "CAN_SPARK_MAX = 0.25"

definition NEO_MOTOR_MASS :: real where
  "NEO_MOTOR_MASS = 0.938"

definition GEARBOX_BASE_KIT_MASS :: real where
  "GEARBOX_BASE_KIT_MASS = 0.576"

definition GEARBOX_5_STAGE_MASS :: real where
  "GEARBOX_5_STAGE_MASS = 0.303"

definition CHAIN_SPROCKET_MASS :: real where
  "CHAIN_SPROCKET_MASS = 0.5"

definition MASS_OFFSET :: real where
  "MASS_OFFSET = 5"

fun getMass :: "massive \<Rightarrow> real" where
  "getMass (Segment len mm) =
     mm + CAN_SPARK_MAX + NEO_MOTOR_MASS + GEARBOX_BASE_KIT_MASS
       + GEARBOX_5_STAGE_MASS * 3 + CHAIN_SPROCKET_MASS"
| "getMass Grabber = 7.5"
| "getMass (Arm cs) = reduce cs (\<lambda>acc component _. acc + getMass component) 0"

fun getLength :: "massive \<Rightarrow> real" where
  "getLength (Segment len mm) = len"
| "getLength Grabber = 12"
| "getLength (Arm cs) = reduce cs (\<lambda>acc component _. acc + getLength component) 0"

text \<open>
  \<open>Arm.getCenterOfMass\<close> first accumulates the array \<open>d\<close> of distances: for the
  component at \<open>index\<close> it sums, with an inner \<open>reduce\<close> over the \<open>index\<close> entries
  already in \<open>d\<close>, the lengths \<open>this.components[0 .. index - 1]\<close>, and adds the
  component's own centre of mass.
\<close>

fun getCenterOfMass :: "massive \<Rightarrow> real" where
  "getCenterOfMass (Segment len mm) = len - MASS_OFFSET"
| "getCenterOfMass Grabber = 4"
| "getCenterOfMass (Arm cs) =
    (let d = reduce cs (\<lambda>acc component index.
               let lengthOfPreviousComponents =
                     (if index = 0 then 0
                      else reduce acc (\<lambda>len _ index. len + getLength (cs ! index)) 0)
               in acc @ [lengthOfPreviousComponents + getCenterOfMass component]) [];
         numerator = reduce cs (\<lambda>weightedMass component index.
                       weightedMass + getMass component * d ! index) 0;
         denominator = reduce cs (\<lambda>mass component _. mass + getMass component) 0
     in numerator / denominator)"

text \<open>\<open>Massive.getTorqueAtBase\<close>, inherited by all three classes.\<close>

definition getTorqueAtBase :: "massive \<Rightarrow> real" where
  "getTorqueAtBase m = getCenterOfMass m * getMass m"

text \<open>
  \<open>new Arm(...segmentLengths)\<close>: one \<open>Segment\<close> pushed per length, in order, then one
  \<open>Grabber\<close>.
\<close>

definition newArm :: "real list \<Rightarrow> massive" where
  "newArm segmentLengths =
    (let components = foldl (\<lambda>components len. components @ [newSegment len]) [] segmentLengths
     in Arm (components @ [Grabber]))"

subsection \<open>The specification's formulas\<close>

text \<open>
  The mass of a structural segment as the specification words it: the material mass
  plus motor, gearbox base, three gearbox stages and sprocket.
\<close>

definition spec_materialMass :: "real \<Rightarrow> real" where
  "spec_materialMass L =
     ((L + 2 * BEARING_EDGE_DISTANCE) * SEGMENT_WIDTH - (HOLE_AREA + ROUND_AREA))
       * MATERIAL_THICKNESS * MATERIAL_DENSITY * WEIGHT_REDUCTION_RATIO * 2"

definition spec_segmentMass :: "real \<Rightarrow> real" where
  "spec_segmentMass L =
     spec_materialMass L + NEO_MOTOR_MASS + GEARBOX_BASE_KIT_MASS
       + 3 * GEARBOX_5_STAGE_MASS + CHAIN_SPROCKET_MASS"

text \<open>
  The centre of mass of a composite as the specification words it: the mass-weighted
  average of the components' positions, the position of component \<open>i\<close> being the
  summed length of components \<open>0 .. i - 1\<close> plus its own centre of mass.
\<close>

definition spec_cumulativeLength :: "massive list \<Rightarrow> nat \<Rightarrow> real" where
  "spec_cumulativeLength cs i = sum_list (map getLength (take i cs))"

definition spec_centerOfMass :: "massive list \<Rightarrow> real" where
  "spec_centerOfMass cs =
     (\<Sum>i<length cs. getMass (cs ! i) * (spec_cumulativeLength cs i + getCenterOfMass (cs ! i)))
       / (\<Sum>i<length cs. getMass (cs ! i))"

subsection \<open>Partition generator\<close>

text \<open>
  What the program can raise: \<open>Array(n)\<close> with a negative \<open>n\<close> raises a
  \<open>RangeError\<close>, a method call on \<open>undefined\<close> a \<open>TypeError\<close>.
\<close>

datatype error = RangeError | TypeError

text \<open>
  \<open>range(start, end)\<close> is \<open>[...Array(end - start)].map((_, index) => index + start)\<close>.
  Lists of the model have no maximal length.
\<close>

definition range_list :: "int \<Rightarrow> int \<Rightarrow> int list option" where
  "range_list start end' =
     (if end' - start < 0 then None
      else Some (map (\<lambda>index. int index + start) [0..<nat (end' - start)]))"

definition irange :: "int \<Rightarrow> int \<Rightarrow> int list option" where
  "irange start end' = range_list start (end' + 1)"

text \<open>\<open>xs.indexOf(v)\<close>: the first position of \<open>v\<close>, or \<open>-1\<close>.\<close>

fun indexOf :: "'a list \<Rightarrow> 'a \<Rightarrow> int" where
  "indexOf [] v = - 1"
| "indexOf (x # xs) v =
     (if x = v then 0 else (let r = indexOf xs v in if r = - 1 then - 1 else r + 1))"

text \<open>
  \<open>xs.splice(start, deleteCount)\<close>, as far as the array it leaves behind: a negative
  \<open>start\<close> counts from the end.
\<close>

definition splice_at :: "'a list \<Rightarrow> int \<Rightarrow> nat \<Rightarrow> 'a list" where
  "splice_at xs start deleteCount =
     (let len = int (length xs);
          s = nat (if start < 0 then max (len + start) 0 else min start len)
      in take s xs @ drop (s + deleteCount) xs)"

text \<open>\<open>[...new Set(xs)]\<close>: the values of \<open>xs\<close> in the order of their first occurrence.\<close>

definition new_Set :: "'a list \<Rightarrow> 'a list" where
  "new_Set xs = foldl (\<lambda>s x. if x \<in> set s then s else s @ [x]) [] xs"

text \<open>
  \<open>xs.sort()\<close> without a comparator orders the elements by their string conversions,
  compared code unit by code unit. \<open>toString\<close> is the decimal representation of an
  integer. JavaScript prints an integer so while its magnitude is below \<open>10 ^ 21\<close>; from
  there on it prints the exponent form (\<open>1e+21\<close>), which \<open>toString\<close> does not model.
  So \<open>toString\<close> and \<open>sort_default\<close> are the code's conversion and sort on elements
  of magnitude below \<open>10 ^ 21\<close> only; the statements about \<open>sort_default\<close> on arbitrary
  input bound the elements by \<open>MAX_SAFE_INTEGER\<close>, which is below \<open>10 ^ 21\<close>.
\<close>

fun digits :: "nat \<Rightarrow> string" where
  "digits n =
     (if n < 10 then [char_of (48 + n)]
      else digits (n div 10) @ [char_of (48 + n mod 10)])"

definition toString :: "int \<Rightarrow> string" where
  "toString n = (if n < 0 then CHR ''-'' # digits (nat (- n)) else digits (nat n))"

definition sort_default :: "int list \<Rightarrow> int list" where
  "sort_default xs = sort_key toString xs"

text \<open>
  \<open>findNumbers(acc, input, sum, index, temp)\<close> mutates the arrays \<open>acc\<close> and \<open>temp\<close>;
  the model passes the pair of them through and returns it. \<open>forLoop\<close> is the body of
  its \<open>for (let i of range(index, input.length))\<close>, run over the indices that remain.
  The recursion is as deep as the number of elements it takes, and it need not end
  (an element \<open>0\<close> repeats the same call for ever). The model is given the depth of the
  call stack: \<open>fuel\<close> is the number of calls of \<open>findNumbers\<close> that can be open at once,
  and \<open>None\<close> says that the run needs more. An engine whose stack holds that many calls
  ends such a run with \<open>RangeError: Maximum call stack size exceeded\<close>; were there no
  limit, a recursion that does not end would never return. Either way \<open>None\<close> is a run
  that gives no result.
\<close>

fun findNumbers :: "nat \<Rightarrow> int list \<Rightarrow> int \<Rightarrow> nat \<Rightarrow> int list list \<times> int list
      \<Rightarrow> (error + int list list \<times> int list) option"
and forLoop :: "nat \<Rightarrow> int list \<Rightarrow> int \<Rightarrow> nat list \<Rightarrow> int list list \<times> int list
      \<Rightarrow> (error + int list list \<times> int list) option"
where
  "findNumbers 0 input sumv index (acc, temp) = None"
| "findNumbers (Suc fuel) input sumv index (acc, temp) =
    (if sumv = 0 then Some (Inr (acc @ [temp], temp))
     else case range_list (int index) (int (length input)) of
            None \<Rightarrow> Some (Inl RangeError)
          | Some indices \<Rightarrow> forLoop fuel input sumv (map nat indices) (acc, temp))"
| "forLoop fuel input sumv [] (acc, temp) = Some (Inr (acc, temp))"
| "forLoop fuel input sumv (i # rest) (acc, temp) =
    (if sumv - input ! i \<ge> 0 then
       (case findNumbers fuel input (sumv - input ! i) i (acc, temp @ [input ! i]) of
          None \<Rightarrow> None
        | Some (Inl e) \<Rightarrow> Some (Inl e)
        | Some (Inr (acc', temp')) \<Rightarrow>
            (let idx = indexOf temp' (input ! i)
             in forLoop fuel input sumv rest
                  (acc', splice_at temp' idx (if idx \<noteq> - 1 then 1 else 0))))
     else forLoop fuel input sumv rest (acc, temp))"

definition findAllCombinations ::
    "nat \<Rightarrow> int list \<Rightarrow> int \<Rightarrow> int \<Rightarrow> (error + int list list) option" where
  "findAllCombinations fuel input sumv maxLength =
     (let input = sort_default (new_Set input)
      in case findNumbers fuel input sumv 0 ([], []) of
           None \<Rightarrow> None
         | Some (Inl e) \<Rightarrow> Some (Inl e)
         | Some (Inr (acc, temp)) \<Rightarrow>
             Some (Inr (filter (\<lambda>combo. int (length combo) = maxLength) acc)))"

subsection \<open>Configuration search and ranking\<close>

definition percentDifference :: "real \<Rightarrow> real \<Rightarrow> real" where
  "percentDifference v1 v2 = (\<bar>v1 - v2\<bar> / ((v1 + v2) / 2)) * 100"

definition SEGMENTS :: int where
  "SEGMENTS = 3"

definition TOTAL_LENGTH :: int where
  "TOTAL_LENGTH = 72"

definition MIN_LENGTH :: int where
  "MIN_LENGTH = 12"

definition possibleArmLengths :: "nat \<Rightarrow> (error + int list list) option" where
  "possibleArmLengths fuel =
     (case irange MIN_LENGTH (TOTAL_LENGTH - MIN_LENGTH * (SEGMENTS - 1)) of
        None \<Rightarrow> Some (Inl RangeError)
      | Some lengths \<Rightarrow> findAllCombinations fuel lengths TOTAL_LENGTH SEGMENTS)"

text \<open>
  Modelled from the spec: \<open>Permutations.permutation\<close> of the package
  \<open>array-permutation\<close>, whose code is not part of the repository. The specification
  says that every partition is expanded into all of its orderings, \<open>k!\<close> of them for a
  partition of length \<open>k\<close>. The order in which the package yields them is not known;
  no statement below depends on it.
\<close>

fun interleave :: "'a \<Rightarrow> 'a list \<Rightarrow> 'a list list" where
  "interleave x [] = [[x]]"
| "interleave x (y # ys) = (x # y # ys) # map ((#) y) (interleave x ys)"

fun permutation :: "'a list \<Rightarrow> 'a list list" where
  "permutation [] = [[]]"
| "permutation (x # xs) = concat (map (interleave x) (permutation xs))"

text \<open>The list \<open>arms\<close> as it is built, before it is sorted.\<close>

definition arms_of :: "int list list \<Rightarrow> massive list" where
  "arms_of lengths =
     (let possibleArmLengthPermutations = concat (map permutation lengths);
          filteredArmLengthPermutations =
            filter (\<lambda>armConfig. True) possibleArmLengthPermutations
      in map (\<lambda>armConfig. newArm (map real_of_int armConfig)) filteredArmLengthPermutations)"

text \<open>
  \<open>arms.sort((a, b) => a.getTorqueAtBase() - b.getTorqueAtBase())\<close>: a stable sort,
  ascending by torque.
\<close>

definition sort_by_torque :: "massive list \<Rightarrow> massive list" where
  "sort_by_torque as = sort_key getTorqueAtBase as"

text \<open>\<open>arms[0]\<close> and \<open>arms[arms.length - 1]\<close>; \<open>None\<close> stands for \<open>undefined\<close>.\<close>

definition bestArm :: "massive list \<Rightarrow> massive option" where
  "bestArm as = (if as = [] then None else Some (as ! 0))"

definition worstArm :: "massive list \<Rightarrow> massive option" where
  "worstArm as = (if as = [] then None else Some (as ! (length as - 1)))"

text \<open>
  The predicate of the final \<open>arms.find\<close>. Reading \<open>getLength\<close> of a component that
  the arm does not have raises a \<open>TypeError\<close>; \<open>&&\<close> does not evaluate its right side
  when the left side is false.
\<close>

fun isSymmetric :: "massive \<Rightarrow> error + bool" where
  "isSymmetric (Arm (c0 # c1 # cs)) =
     (if getLength c0 = getLength c1
      then (case cs of [] \<Rightarrow> Inl TypeError | c2 # _ \<Rightarrow> Inr (getLength c1 = getLength c2))
      else Inr False)"
| "isSymmetric _ = Inl TypeError"

text \<open>\<open>xs.find(p)\<close>: the first element that satisfies \<open>p\<close>; \<open>None\<close> stands for \<open>undefined\<close>.\<close>

fun find_first :: "('a \<Rightarrow> error + bool) \<Rightarrow> 'a list \<Rightarrow> error + 'a option" where
  "find_first p [] = Inr None"
| "find_first p (x # xs) =
     (case p x of Inl e \<Rightarrow> Inl e | Inr True \<Rightarrow> Inr (Some x) | Inr False \<Rightarrow> find_first p xs)"

text \<open>
  The run of the script: what it prints, in order. With no arm at all, \<open>bestArm\<close> is
  \<open>undefined\<close> and computing the percent difference raises a \<open>TypeError\<close> before the
  symmetric arm is looked up.
\<close>

record report =
  best :: massive
  worst :: massive
  percent :: real
  symmetric :: "massive option"

definition main :: "nat \<Rightarrow> (error + report) option" where
  "main fuel =
     (case possibleArmLengths fuel of
        None \<Rightarrow> None
      | Some (Inl e) \<Rightarrow> Some (Inl e)
      | Some (Inr lengths) \<Rightarrow>
          (let arms = sort_by_torque (arms_of lengths)
           in case (bestArm arms, worstArm arms) of
                (Some b, Some w) \<Rightarrow>
                  (case find_first isSymmetric arms of
                     Inl e \<Rightarrow> Some (Inl e)
                   | Inr found \<Rightarrow>
                       Some (Inr \<lparr>best = b, worst = w,
                          percent = percentDifference (getTorqueAtBase b) (getTorqueAtBase w),
                          symmetric = found\<rparr>))
              | _ \<Rightarrow> Some (Inl TypeError)))"

text \<open>What the final \<open>arms.find\<close> of a run gives.\<close>

definition symmetricArm :: "nat \<Rightarrow> (error + massive option) option" where
  "symmetricArm fuel = map_option (map_sum id symmetric) (main fuel)"

subsection \<open>What the search is to produce\<close>

text \<open>
  A solution is described by the positions it takes in the sorted input: positions
  that never decrease, start at the cursor \<open>index\<close>, and whose elements add up to the
  remaining sum.
\<close>

definition valid :: "int list \<Rightarrow> nat \<Rightarrow> int \<Rightarrow> nat list \<Rightarrow> bool" where
  "valid input index sumv js \<longleftrightarrow>
     sorted js \<and> (\<forall>j\<in>set js. index \<le> j \<and> j < length input)
     \<and> sum_list (map ((!) input) js) = sumv"

text \<open>The arrays recorded for a list of solutions, each behind the current \<open>temp\<close>.\<close>

definition results :: "int list \<Rightarrow> int list \<Rightarrow> nat list list \<Rightarrow> int list list" where
  "results input temp jss = map (\<lambda>js. temp @ map ((!) input) js) jss"

text \<open>The values of a run that returned; none for a run that raised or did not end.\<close>

definition produced :: "(error + 'a list) option \<Rightarrow> 'a list" where
  "produced r = (case r of Some (Inr xs) \<Rightarrow> xs | _ \<Rightarrow> [])"

section \<open>Properties of the physical model\<close>

subsection \<open>Folding with \<open>reduce\<close>\<close>

lemma zip_upt_nth: "zip xs [0..<length xs] = map (\<lambda>i. (xs ! i, i)) [0..<length xs]"
  by (rule nth_equalityI) simp_all

lemma reduce_upt: "reduce xs f init = foldl (\<lambda>acc i. f acc (xs ! i) i) init [0..<length xs]"
  by (simp add: reduce_def zip_upt_nth foldl_map)

lemma foldl_add_upt:
  "foldl (\<lambda>acc i. acc + g i) a [0..<n] = a + (\<Sum>i<n. g i)" for a :: real
  by (induction n) simp_all

lemma reduce_add_index:
  "reduce xs (\<lambda>acc x i. acc + g x i) a = a + (\<Sum>i<length xs. g (xs ! i) i)" for a :: real
  by (simp add: reduce_upt foldl_add_upt)

lemma sum_nth_sum_list: "(\<Sum>i<length xs. f (xs ! i)) = sum_list (map f xs)" for f :: "'a \<Rightarrow> real"
  by (simp add: sum_list_sum_nth atLeast0LessThan)

lemma reduce_add: "reduce xs (\<lambda>acc x _. acc + f x) 0 = sum_list (map f xs)" for f :: "'a \<Rightarrow> real"
  using reduce_add_index [of xs "\<lambda>x _. f x" 0] by (simp add: sum_nth_sum_list)

lemma getMass_Arm: "getMass (Arm cs) = sum_list (map getMass cs)"
  by (simp add: reduce_add)

lemma getLength_Arm: "getLength (Arm cs) = sum_list (map getLength cs)"
  by (simp add: reduce_add)

lemma newArm_components: "newArm ls = Arm (map newSegment ls @ [Grabber])"
proof -
  have "foldl (\<lambda>components len. components @ [newSegment len]) acc ls = acc @ map newSegment ls"
    for acc
    by (induction ls arbitrary: acc) simp_all
  then show ?thesis by (simp add: newArm_def)
qed

text \<open>The array \<open>d\<close> of \<open>Arm.getCenterOfMass\<close>, entry by entry.\<close>

lemma distances_upt:
  "n \<le> length cs \<Longrightarrow>
   foldl (\<lambda>acc i. acc @ [(if i = 0 then 0
              else reduce acc (\<lambda>len _ index. len + getLength (cs ! index)) 0)
            + getCenterOfMass (cs ! i)]) [] [0..<n]
   = map (\<lambda>i. spec_cumulativeLength cs i + getCenterOfMass (cs ! i)) [0..<n]"
proof (induction n)
  case 0
  show ?case by simp
next
  case (Suc n)
  have cum: "(\<Sum>i<n. getLength (cs ! i)) = spec_cumulativeLength cs n"
  proof -
    have "(\<Sum>i<n. getLength (cs ! i)) = (\<Sum>i<length (take n cs). getLength (take n cs ! i))"
      using Suc.prems by simp
    then show ?thesis
      by (simp only: sum_nth_sum_list spec_cumulativeLength_def)
  qed
  have zero: "spec_cumulativeLength cs 0 = 0"
    by (simp add: spec_cumulativeLength_def)
  from Suc show ?case
    by (cases "n = 0") (simp_all add: reduce_add_index [where a = 0, simplified] cum zero)
qed

lemma getCenterOfMass_Arm: "getCenterOfMass (Arm cs) = spec_centerOfMass cs"
proof -
  let ?d = "map (\<lambda>i. spec_cumulativeLength cs i + getCenterOfMass (cs ! i)) [0..<length cs]"
  let ?dist = "reduce cs (\<lambda>acc component index.
                 acc @ [(if index = 0 then 0
                         else reduce acc (\<lambda>len _ index. len + getLength (cs ! index)) 0)
                        + getCenterOfMass component]) []"
  have d: "?dist = ?d"
    using distances_upt [of "length cs" cs] by (simp add: reduce_upt)
  have num: "reduce cs (\<lambda>weightedMass component index.
               weightedMass + getMass component * ?d ! index) 0
             = (\<Sum>i<length cs. getMass (cs ! i) * (spec_cumulativeLength cs i + getCenterOfMass (cs ! i)))"
    using reduce_add_index [of cs "\<lambda>x i. getMass x * ?d ! i" 0] by simp
  have den: "reduce cs (\<lambda>mass component _. mass + getMass component) 0
             = (\<Sum>i<length cs. getMass (cs ! i))"
    using reduce_add_index [of cs "\<lambda>x _. getMass x" 0] by simp
  have "getCenterOfMass (Arm cs)
        = reduce cs (\<lambda>weightedMass component index.
               weightedMass + getMass component * ?dist ! index) 0
          / reduce cs (\<lambda>mass component _. mass + getMass component) 0"
    by (simp only: getCenterOfMass.simps Let_def)
  also have "\<dots> = reduce cs (\<lambda>weightedMass component index.
               weightedMass + getMass component * ?d ! index) 0
          / reduce cs (\<lambda>mass component _. mass + getMass component) 0"
    by (simp only: d)
  also have "\<dots> = spec_centerOfMass cs"
    by (simp only: num den spec_centerOfMass_def)
  finally show ?thesis .
qed

subsection \<open>Segment mass\<close>

text \<open>
  C3 (as the code has it). The mass of \<open>new Segment(L)\<close> is the material mass of the
  specification's formula plus the motor, the gearbox base, three gearbox stages and
  the sprocket, and plus one more term: the 0.25 lb of the motor controller
  (\<open>CAN_SPARK_MAX\<close>).
\<close>

theorem segment_mass_formula:
  "getMass (newSegment L) =
     spec_materialMass L + CAN_SPARK_MAX + NEO_MOTOR_MASS + GEARBOX_BASE_KIT_MASS
       + 3 * GEARBOX_5_STAGE_MASS + CHAIN_SPROCKET_MASS
   \<and> materialMass (newSegment L) = spec_materialMass L
   \<and> getMass (newSegment L) = spec_segmentMass L + 0.25"
  by (simp add: newSegment_def Let_def spec_materialMass_def spec_segmentMass_def
      TOTAL_NEGATIVE_AREA_def CAN_SPARK_MAX_def)

text \<open>
  C3 as the specification states it, with no term beyond motor, gearbox and sprocket,
  fails for a segment of length 12.
\<close>

theorem segment_mass_spec_counterexample:
  "getMass (newSegment 12) \<noteq> spec_segmentMass 12"
  by (simp add: newSegment_def Let_def spec_materialMass_def spec_segmentMass_def
      TOTAL_NEGATIVE_AREA_def CAN_SPARK_MAX_def)

subsection \<open>Arm aggregates\<close>

text \<open>
  C5. For every arm, the mass is the sum of the components' masses, the length is the
  sum of the components' lengths, the centre of mass is the mass-weighted average
  \<open>\<Sum> mass\<^sub>i * (cumulativeLength\<^sub>i + localCenter\<^sub>i) / \<Sum> mass\<^sub>i\<close> with \<open>cumulativeLength\<^sub>i\<close> the
  summed length of components \<open>0 .. i - 1\<close>, and the torque at the base is the arm's own
  mass times its centre of mass.
\<close>

theorem arm_aggregates:
  "getMass (Arm cs) = sum_list (map getMass cs)
   \<and> getLength (Arm cs) = sum_list (map getLength cs)
   \<and> getCenterOfMass (Arm cs) =
       (\<Sum>i<length cs. getMass (cs ! i)
            * (sum_list (map getLength (take i cs)) + getCenterOfMass (cs ! i)))
         / (\<Sum>i<length cs. getMass (cs ! i))
   \<and> getTorqueAtBase (Arm cs) = getMass (Arm cs) * getCenterOfMass (Arm cs)"
proof (intro conjI)
  show "getMass (Arm cs) = sum_list (map getMass cs)"
    by (rule getMass_Arm)
  show "getLength (Arm cs) = sum_list (map getLength cs)"
    by (rule getLength_Arm)
  show "getCenterOfMass (Arm cs) =
       (\<Sum>i<length cs. getMass (cs ! i)
            * (sum_list (map getLength (take i cs)) + getCenterOfMass (cs ! i)))
         / (\<Sum>i<length cs. getMass (cs ! i))"
    by (simp only: getCenterOfMass_Arm spec_centerOfMass_def spec_cumulativeLength_def)
  show "getTorqueAtBase (Arm cs) = getMass (Arm cs) * getCenterOfMass (Arm cs)"
    by (simp only: getTorqueAtBase_def mult.commute)
qed

text \<open>
  C8. Building an arm from a sequence of lengths and reading the components' lengths
  back in order gives the sequence again, followed by the length 12 of the one
  \<open>Grabber\<close>, which is the last component.
\<close>

theorem arm_lengths_roundtrip:
  "map getLength (components (newArm ls)) = ls @ [12]
   \<and> last (components (newArm ls)) = Grabber
   \<and> length (components (newArm ls)) = length ls + 1
   \<and> Grabber \<notin> set (butlast (components (newArm ls)))"
  by (auto simp: newArm_components comp_def newSegment_def Let_def)

text \<open>
  C10. An arm built from no lengths has the \<open>Grabber\<close> as its only component; its mass
  is 7.5, its length 12, its centre of mass 4 and its torque at the base 30. The
  divisor in the centre of mass is the mass 7.5, not zero.
\<close>

theorem empty_arm:
  "components (newArm []) = [Grabber]
   \<and> getMass (newArm []) = 7.5
   \<and> getLength (newArm []) = 12
   \<and> getCenterOfMass (newArm []) = 4
   \<and> getTorqueAtBase (newArm []) = 30
   \<and> reduce (components (newArm [])) (\<lambda>mass component _. mass + getMass component) 0 \<noteq> 0"
  by (simp add: newArm_def getTorqueAtBase_def reduce_def)

subsection \<open>Bounds on the centre of mass\<close>

lemma segment_values:
  "getLength (newSegment len) = len"
  "getCenterOfMass (newSegment len) = len - 5"
  by (simp_all add: newSegment_def Let_def MASS_OFFSET_def)

lemma segment_material_pos: "0 < len \<Longrightarrow> 0 < materialMass (newSegment len)"
proof -
  assume len: "0 < len"
  have "0 < (len + 2 * 3) * 6 - ((3.9 + 1.1) + (6 * 6 - pi * (6 / 2) ^ 2))"
    using len pi_ge_two by (simp add: power2_eq_square)
  then show ?thesis
    by (simp add: newSegment_def Let_def SEGMENT_WIDTH_def MATERIAL_THICKNESS_def
        MATERIAL_DENSITY_def HOLE_AREA_def ROUND_AREA_def TOTAL_NEGATIVE_AREA_def
        BEARING_EDGE_DISTANCE_def WEIGHT_REDUCTION_RATIO_def zero_less_mult_iff)
qed

lemma segment_mass_hardware:
  "getMass (newSegment len) = materialMass (newSegment len) + 3.173"
  by (simp add: newSegment_def Let_def CAN_SPARK_MAX_def NEO_MOTOR_MASS_def
      GEARBOX_BASE_KIT_MASS_def GEARBOX_5_STAGE_MASS_def CHAIN_SPROCKET_MASS_def)

lemma segment_mass_pos: "0 < len \<Longrightarrow> 0 < getMass (newSegment len)"
  using segment_material_pos [of len] by (simp only: segment_mass_hardware) simp

lemma segment_mass_gt3: "0 < len \<Longrightarrow> 3 < getMass (newSegment len)"
  using segment_material_pos [of len] by (simp only: segment_mass_hardware) simp

lemma grabber_values:
  "getMass Grabber = 7.5" "getLength Grabber = 12" "getCenterOfMass Grabber = 4"
  by simp_all

text \<open>Prefix sums of non-negative lengths.\<close>

lemma sum_list_take_le:
  fixes xs :: "real list"
  assumes "\<forall>x\<in>set xs. 0 \<le> x"
  shows "0 \<le> sum_list (take i xs)" and "sum_list (take i xs) \<le> sum_list xs"
proof -
  have t: "0 \<le> sum_list (take i xs)"
    using assms by (intro sum_list_nonneg) (auto dest: in_set_takeD)
  have d: "0 \<le> sum_list (drop i xs)"
    using assms by (intro sum_list_nonneg) (auto dest: in_set_dropD)
  have "sum_list xs = sum_list (take i xs) + sum_list (drop i xs)"
    by (metis append_take_drop_id sum_list_append)
  with d show "sum_list (take i xs) \<le> sum_list xs"
    by simp
  show "0 \<le> sum_list (take i xs)"
    by (rule t)
qed

lemma cumulativeLength_bounds:
  assumes "\<forall>c\<in>set cs. 0 \<le> getLength c" and "i < length cs"
  shows "0 \<le> spec_cumulativeLength cs i"
    and "spec_cumulativeLength cs i + getLength (cs ! i) \<le> sum_list (map getLength cs)"
proof -
  have nn: "\<forall>x\<in>set (map getLength cs). 0 \<le> x"
    using assms(1) by simp
  show "0 \<le> spec_cumulativeLength cs i"
    using sum_list_take_le(1) [OF nn, of i] by (simp add: spec_cumulativeLength_def take_map)
  have "spec_cumulativeLength cs i + getLength (cs ! i) = sum_list (take (Suc i) (map getLength cs))"
    using assms(2) by (simp add: spec_cumulativeLength_def take_map take_Suc_conv_app_nth)
  then show "spec_cumulativeLength cs i + getLength (cs ! i) \<le> sum_list (map getLength cs)"
    using sum_list_take_le(2) [OF nn, of "Suc i"] by simp
qed

lemma mass_sum_pos:
  assumes "cs \<noteq> []" and "\<forall>c\<in>set cs. 0 < getMass c"
  shows "0 < (\<Sum>i<length cs. getMass (cs ! i))"
  using assms by (intro sum_pos) auto

lemma centerOfMass_upper:
  assumes ne: "cs \<noteq> []"
    and c: "\<forall>c\<in>set cs. 0 < getMass c \<and> 0 \<le> getLength c \<and> getCenterOfMass c < getLength c"
  shows "spec_centerOfMass cs < sum_list (map getLength cs)"
proof -
  let ?L = "sum_list (map getLength cs)"
  let ?pos = "\<lambda>i. spec_cumulativeLength cs i + getCenterOfMass (cs ! i)"
  have step: "getMass (cs ! i) * ?pos i < getMass (cs ! i) * ?L" if "i < length cs" for i
  proof -
    have "cs ! i \<in> set cs"
      using that by simp
    with c have m: "0 < getMass (cs ! i)" and l: "getCenterOfMass (cs ! i) < getLength (cs ! i)"
      by blast+
    have "spec_cumulativeLength cs i + getLength (cs ! i) \<le> ?L"
      using cumulativeLength_bounds(2) [OF _ that] c by blast
    with l have "?pos i < ?L"
      by simp
    with m show ?thesis
      by simp
  qed
  have "(\<Sum>i<length cs. getMass (cs ! i) * ?pos i) < (\<Sum>i<length cs. getMass (cs ! i) * ?L)"
    using ne step by (intro sum_strict_mono) auto
  also have "\<dots> = (\<Sum>i<length cs. getMass (cs ! i)) * ?L"
    by (simp add: sum_distrib_right)
  finally show ?thesis
    using mass_sum_pos [OF ne] c
    by (simp add: spec_centerOfMass_def pos_divide_less_eq mult.commute)
qed

lemma arm_bounds:
  assumes "\<forall>len\<in>set ls. 0 < len"
  shows "0 < getMass (newArm ls)"
    and "getCenterOfMass (newArm ls) < getLength (newArm ls)"
proof -
  let ?cs = "map newSegment ls @ [Grabber]"
  have ne: "?cs \<noteq> []"
    by simp
  have up: "\<forall>c\<in>set ?cs. 0 < getMass c \<and> 0 \<le> getLength c \<and> getCenterOfMass c < getLength c"
    using assms by (auto simp: segment_values segment_mass_pos less_imp_le)
  have "getMass (newArm ls) = (\<Sum>i<length ?cs. getMass (?cs ! i))"
    by (simp only: newArm_components getMass_Arm sum_nth_sum_list)
  then show "0 < getMass (newArm ls)"
    using mass_sum_pos [OF ne] up by simp
  show "getCenterOfMass (newArm ls) < getLength (newArm ls)"
    using centerOfMass_upper [OF ne up]
    by (simp only: newArm_components getCenterOfMass_Arm getLength_Arm)
qed

text \<open>
  The lower bound. A segment whose far end lies less than \<open>MASS_OFFSET\<close> from the base
  counts with a negative position. With segments of length 1 or more this can happen
  to the first four segments only, each lighter than 4.3, and the \<open>Grabber\<close> outweighs
  them.
\<close>

lemma segment_mass_short: "len < 5 \<Longrightarrow> getMass (newSegment len) < 4.3"
proof -
  assume len: "len < 5"
  have "materialMass (newSegment len)
        = ((len + 6) * 6 - (5 + (36 - pi * 9))) * (0.23622 * 0.0975437 * 0.4 * 2)"
    by (simp add: newSegment_def Let_def SEGMENT_WIDTH_def MATERIAL_THICKNESS_def
        MATERIAL_DENSITY_def HOLE_AREA_def ROUND_AREA_def TOTAL_NEGATIVE_AREA_def
        BEARING_EDGE_DISTANCE_def WEIGHT_REDUCTION_RATIO_def power2_eq_square)
  moreover have "(len + 6) * 6 - (5 + (36 - pi * 9)) < 61"
    using len pi_less_4 by simp
  ultimately have "materialMass (newSegment len) < 61 * (0.23622 * 0.0975437 * 0.4 * 2)"
    by simp
  then show ?thesis
    by (simp only: segment_mass_hardware) simp
qed

lemma sum_list_ge_length:
  fixes xs :: "real list"
  shows "\<forall>x\<in>set xs. 1 \<le> x \<Longrightarrow> real (length xs) \<le> sum_list xs"
  by (induction xs) auto

lemma cumulative_segments:
  "i \<le> length ls \<Longrightarrow>
   spec_cumulativeLength (map newSegment ls @ [Grabber]) i = sum_list (take i ls)"
  by (simp add: spec_cumulativeLength_def take_map comp_def segment_values)

lemma slack_sum: "- 16.2 \<le> (\<Sum>i<n. 7.5 - 4.3 * max 0 (4 - real i))"
proof (cases "n < 3")
  case True
  then consider "n = 0" | "n = 1" | "n = 2"
    by linarith
  then show ?thesis
    by cases (simp_all add: numeral_2_eq_2)
next
  case False
  let ?slack = "\<lambda>i. 7.5 - 4.3 * max 0 (4 - real i)"
  from False have "(\<Sum>i = 0..<n. ?slack i) = (\<Sum>i = 0..<3. ?slack i) + (\<Sum>i = 3..<n. ?slack i)"
    by (intro sum.atLeastLessThan_concat [symmetric]) simp_all
  then have "(\<Sum>i<n. ?slack i) = (\<Sum>i<3. ?slack i) + (\<Sum>i = 3..<n. ?slack i)"
    by (simp only: atLeast0LessThan)
  moreover have "(\<Sum>i<3. ?slack i) = - 16.2"
    by (simp add: numeral_3_eq_3)
  moreover have "0 \<le> (\<Sum>i = 3..<n. ?slack i)"
    by (intro sum_nonneg) (auto simp: max_def)
  ultimately show ?thesis
    by simp
qed

lemma segment_term_bound:
  assumes ge: "\<forall>len\<in>set ls. 1 \<le> len" and i: "i < length ls"
  shows "- (4.3 * max 0 (4 - real i))
         \<le> getMass (newSegment (ls ! i)) * (sum_list (take i ls) + (ls ! i - 5))"
proof -
  let ?m = "getMass (newSegment (ls ! i))"
  let ?q = "sum_list (take i ls) + (ls ! i - 5)"
  have len: "1 \<le> ls ! i"
    using ge i by simp
  have m: "0 < ?m"
    using len by (intro segment_mass_pos) simp
  have "\<forall>x\<in>set (take i ls). 1 \<le> x"
    using ge by (auto dest: in_set_takeD)
  from sum_list_ge_length [OF this] i have cum: "real i \<le> sum_list (take i ls)"
    by simp
  show ?thesis
  proof (cases "0 \<le> ?q")
    case True
    with m have "0 \<le> ?m * ?q"
      by simp
    moreover have "- (4.3 * max 0 (4 - real i)) \<le> 0"
      by simp
    ultimately show ?thesis
      by (rule order_trans [rotated])
  next
    case False
    then have short: "ls ! i < 5"
      using cum by simp
    from False cum len have room: "0 \<le> 4 - real i" "- ?q \<le> 4 - real i"
      by simp_all
    have bound: "?m * (- ?q) \<le> 4.3 * (4 - real i)"
      using segment_mass_short [OF short] m False room by (intro mult_mono) simp_all
    have flip: "?m * ?q = - (?m * (- ?q))"
      by (simp only: mult_minus_right minus_minus)
    have s: "- (4.3 * max 0 (4 - real i)) = - (4.3 * (4 - real i))"
      using room(1) by (simp add: max_def)
    show ?thesis
      unfolding s flip using bound by linarith
  qed
qed

lemma arm_moment_margin:
  assumes ge: "\<forall>len\<in>set ls. 1 \<le> len"
  shows "13.8 \<le> (\<Sum>i<length (map newSegment ls @ [Grabber]).
            getMass ((map newSegment ls @ [Grabber]) ! i)
              * (spec_cumulativeLength (map newSegment ls @ [Grabber]) i
                  + getCenterOfMass ((map newSegment ls @ [Grabber]) ! i)))"
proof -
  let ?cs = "map newSegment ls @ [Grabber]"
  let ?n = "length ls"
  let ?pos = "\<lambda>i. spec_cumulativeLength ?cs i + getCenterOfMass (?cs ! i)"
  have seg: "- (4.3 * max 0 (4 - real i)) \<le> getMass (?cs ! i) * ?pos i" if "i < ?n" for i
    using segment_term_bound [OF ge that] that
    by (simp add: nth_append cumulative_segments segment_values)
  have "(\<Sum>i<?n. - (4.3 * max 0 (4 - real i))) \<le> (\<Sum>i<?n. getMass (?cs ! i) * ?pos i)"
    using seg by (intro sum_mono) simp
  moreover have "(\<Sum>i<?n. 7.5 - 4.3 * max 0 (4 - real i))
      = 7.5 * real ?n + (\<Sum>i<?n. - (4.3 * max 0 (4 - real i)))"
    by (simp add: sum_subtractf sum_negf)
  ultimately have segs: "(\<Sum>i<?n. 7.5 - 4.3 * max 0 (4 - real i)) - 7.5 * real ?n
      \<le> (\<Sum>i<?n. getMass (?cs ! i) * ?pos i)"
    by simp
  have "real ?n \<le> sum_list ls"
    by (rule sum_list_ge_length [OF ge])
  then have grab: "7.5 * real ?n + 30 \<le> getMass (?cs ! ?n) * ?pos ?n"
    by (simp add: nth_append cumulative_segments)
  have "(\<Sum>i<length ?cs. getMass (?cs ! i) * ?pos i)
        = (\<Sum>i<?n. getMass (?cs ! i) * ?pos i) + getMass (?cs ! ?n) * ?pos ?n"
    by simp
  with segs grab slack_sum [of ?n] show ?thesis
    by linarith
qed

lemma arm_center_positive:
  assumes ge: "\<forall>len\<in>set ls. 1 \<le> len"
  shows "0 < getCenterOfMass (newArm ls)"
proof -
  let ?cs = "map newSegment ls @ [Grabber]"
  let ?pos = "\<lambda>i. spec_cumulativeLength ?cs i + getCenterOfMass (?cs ! i)"
  have pos: "\<forall>len\<in>set ls. 0 < len"
    using ge by force
  have num: "0 < (\<Sum>i<length ?cs. getMass (?cs ! i) * ?pos i)"
    using arm_moment_margin [OF ge] by simp
  have "0 < getMass (newArm ls)"
    by (rule arm_bounds(1) [OF pos])
  then have den: "0 < (\<Sum>i<length ?cs. getMass (?cs ! i))"
    by (simp only: newArm_components getMass_Arm sum_nth_sum_list)
  from num den have "0 < spec_centerOfMass ?cs"
    by (simp only: spec_centerOfMass_def zero_less_divide_iff) simp
  then show ?thesis
    by (simp only: newArm_components getCenterOfMass_Arm)
qed

text \<open>The torque at the base is that weighted sum, so it is at least 13.8.\<close>

lemma arm_torque_margin:
  assumes ge: "\<forall>len\<in>set ls. 1 \<le> len"
  shows "13.8 \<le> getTorqueAtBase (newArm ls)"
proof -
  let ?cs = "map newSegment ls @ [Grabber]"
  let ?num = "\<Sum>i<length ?cs. getMass (?cs ! i)
      * (spec_cumulativeLength ?cs i + getCenterOfMass (?cs ! i))"
  let ?den = "\<Sum>i<length ?cs. getMass (?cs ! i)"
  have pos: "\<forall>len\<in>set ls. 0 < len"
    using ge by force
  have "0 < getMass (newArm ls)"
    by (rule arm_bounds(1) [OF pos])
  then have den: "0 < ?den"
    by (simp only: newArm_components getMass_Arm sum_nth_sum_list)
  have "getTorqueAtBase (newArm ls) = ?num / ?den * ?den"
    by (simp only: getTorqueAtBase_def newArm_components getCenterOfMass_Arm getMass_Arm
        sum_nth_sum_list spec_centerOfMass_def)
  also have "\<dots> = ?num"
    using den by simp
  finally show ?thesis
    using arm_moment_margin [OF ge] by simp
qed

text \<open>
  The upper bound with its margin: every component's centre lies at least 8 before the
  end of the arm (the \<open>Grabber\<close>'s own centre is 4 into its length of 12).
\<close>

lemma arm_center_margin:
  assumes pos: "\<forall>len\<in>set ls. 0 < len"
  shows "getCenterOfMass (newArm ls) \<le> getLength (newArm ls) - 8"
proof -
  let ?cs = "map newSegment ls @ [Grabber]"
  let ?n = "length ls"
  let ?pos = "\<lambda>i. spec_cumulativeLength ?cs i + getCenterOfMass (?cs ! i)"
  let ?B = "sum_list ls + 4"
  have nn: "\<forall>x\<in>set ls. 0 \<le> x"
    using pos by force
  have place: "?pos i \<le> ?B" if "i < length ?cs" for i
  proof (cases "i < ?n")
    case True
    have "sum_list (take (Suc i) ls) \<le> sum_list ls"
      by (rule sum_list_take_le(2) [OF nn])
    then have "sum_list (take i ls) + ls ! i \<le> sum_list ls"
      using True by (simp add: take_Suc_conv_app_nth)
    then show ?thesis
      using True by (simp add: nth_append cumulative_segments segment_values)
  next
    case False
    with that have "i = ?n"
      by simp
    then show ?thesis
      by (simp add: nth_append cumulative_segments)
  qed
  have m: "0 < getMass (?cs ! i)" if "i < length ?cs" for i
  proof -
    have "?cs ! i \<in> set ?cs"
      using that by (rule nth_mem)
    then show ?thesis
      using pos by (auto simp: segment_mass_pos)
  qed
  have "(\<Sum>i<length ?cs. getMass (?cs ! i) * ?pos i)
        \<le> (\<Sum>i<length ?cs. getMass (?cs ! i) * ?B)"
    using place m by (intro sum_mono mult_left_mono) (auto intro: less_imp_le)
  also have "\<dots> = (\<Sum>i<length ?cs. getMass (?cs ! i)) * ?B"
    by (simp only: sum_distrib_right)
  finally have num: "(\<Sum>i<length ?cs. getMass (?cs ! i) * ?pos i)
        \<le> (\<Sum>i<length ?cs. getMass (?cs ! i)) * ?B" .
  have "0 < getMass (newArm ls)"
    by (rule arm_bounds(1) [OF pos])
  then have den: "0 < (\<Sum>i<length ?cs. getMass (?cs ! i))"
    by (simp only: newArm_components getMass_Arm sum_nth_sum_list)
  from num den have "spec_centerOfMass ?cs \<le> ?B"
    by (simp add: spec_centerOfMass_def pos_divide_le_eq mult.commute)
  moreover have "getLength (newArm ls) = sum_list ls + 12"
    by (simp add: newArm_components getLength_Arm comp_def segment_values
        del: getLength.simps(3))
  ultimately show ?thesis
    by (simp only: newArm_components getCenterOfMass_Arm)
qed

lemma short_arm_negative: "getCenterOfMass (newArm [1/4, 1/4, 1/4]) < 0"
proof -
  let ?m = "getMass (newSegment (1/4))"
  have m: "0 < ?m"
    by (rule segment_mass_pos) simp
  have m3: "3 < ?m"
    by (rule segment_mass_gt3) simp
  have "getCenterOfMass (newArm [1/4, 1/4, 1/4])
        = (?m * (1/4 - 5) + ?m * (1/4 + (1/4 - 5)) + ?m * (1/4 + 1/4 + (1/4 - 5))
            + 7.5 * (1/4 + 1/4 + 1/4 + 4)) / (?m + ?m + ?m + 7.5)"
    by (simp add: newArm_components getCenterOfMass_Arm spec_centerOfMass_def
        spec_cumulativeLength_def segment_values grabber_values numeral_eq_Suc lessThan_Suc
        algebra_simps
        del: getCenterOfMass.simps(3) getMass.simps(3))
  also have "\<dots> < 0"
    using m m3 by (simp add: divide_less_0_iff)
  finally show ?thesis .
qed

text \<open>
  C7 (as the code has it). For an arm built from at most 1000 segments of positive
  length at most 1000, the mass is positive and the centre of mass is strictly less
  than the total length, by 8 or more. It is strictly greater than 0, and the torque
  at the base at least 13.8, when every segment is at least 1 long, so for all
  segment lengths that are positive integers; a segment's own centre of mass is its
  length minus \<open>MASS_OFFSET\<close> = 5, negative for a short segment. The bounds on the
  number and the length of the segments keep the two margins well above what the
  rounding of the code's doubles can change.
\<close>

theorem arm_center_of_mass_bounds:
  "(length ls \<le> 1000 \<and> (\<forall>len\<in>set ls. 0 < len \<and> len \<le> 1000) \<longrightarrow>
      0 < getMass (newArm ls)
      \<and> getCenterOfMass (newArm ls) \<le> getLength (newArm ls) - 8
      \<and> getCenterOfMass (newArm ls) < getLength (newArm ls))
   \<and> (length ls \<le> 1000 \<and> (\<forall>len\<in>set ls. 1 \<le> len \<and> len \<le> 1000) \<longrightarrow>
      0 < getCenterOfMass (newArm ls)
      \<and> 13.8 \<le> getTorqueAtBase (newArm ls)
      \<and> getCenterOfMass (newArm ls) < getLength (newArm ls))"
proof (intro conjI impI)
  assume "length ls \<le> 1000 \<and> (\<forall>len\<in>set ls. 0 < len \<and> len \<le> 1000)"
  then have pos: "\<forall>len\<in>set ls. 0 < len"
    by simp
  then show "0 < getMass (newArm ls)" "getCenterOfMass (newArm ls) < getLength (newArm ls)"
    by (rule arm_bounds(1), rule arm_bounds(2))
  from pos show "getCenterOfMass (newArm ls) \<le> getLength (newArm ls) - 8"
    by (rule arm_center_margin)
next
  assume "length ls \<le> 1000 \<and> (\<forall>len\<in>set ls. 1 \<le> len \<and> len \<le> 1000)"
  then have one: "\<forall>len\<in>set ls. 1 \<le> len"
    by simp
  then have pos: "\<forall>len\<in>set ls. 0 < len"
    by force
  from one show "0 < getCenterOfMass (newArm ls)"
    by (rule arm_center_positive)
  from one show "13.8 \<le> getTorqueAtBase (newArm ls)"
    by (rule arm_torque_margin)
  from pos show "getCenterOfMass (newArm ls) < getLength (newArm ls)"
    by (rule arm_bounds(2))
qed

theorem arm_center_of_mass_bounds_witness:
  "length [12, 24, 36 :: real] \<le> 1000
   \<and> list_all (\<lambda>len. 0 < len \<and> len \<le> 1000) [12, 24, 36 :: real]
   \<and> 0 < getMass (newArm [12, 24, 36])
   \<and> getCenterOfMass (newArm [12, 24, 36]) \<le> getLength (newArm [12, 24, 36]) - 8
   \<and> getCenterOfMass (newArm [12, 24, 36]) < getLength (newArm [12, 24, 36])
   \<and> list_all (\<lambda>len. 1 \<le> len \<and> len \<le> 1000) [12, 24, 36 :: real]
   \<and> 0 < getCenterOfMass (newArm [12, 24, 36])
   \<and> 13.8 \<le> getTorqueAtBase (newArm [12, 24, 36])"
proof -
  have h0: "length [12, 24, 36 :: real] \<le> 1000"
    by simp
  have h1: "\<forall>len\<in>set [12, 24, 36 :: real]. 0 < len \<and> len \<le> 1000"
    by simp
  have h2: "\<forall>len\<in>set [12, 24, 36 :: real]. 1 \<le> len \<and> len \<le> 1000"
    by simp
  from arm_center_of_mass_bounds [of "[12, 24, 36]"] h0 h1 h2 show ?thesis
    unfolding list_all_iff by blast
qed

text \<open>
  C7 as the specification states it, for any positive segment lengths, fails for three
  segments of a quarter inch: the centre of mass of that arm is negative.
\<close>

theorem center_of_mass_positive_counterexample:
  "0 < (1/4 :: real) \<and> getCenterOfMass (newArm [1/4, 1/4, 1/4]) < 0"
  using short_arm_negative by simp

section \<open>Properties of the partition generator\<close>

text \<open>
  The lemmas of this section are about the model, in integers of any size and for any
  depth of the call stack. The code is the model on integers up to
  \<open>MAX_SAFE_INTEGER\<close>: the theorems for the claims carry that bound, and so do the two
  summaries \<open>combinations_sound\<close> and \<open>combinations_exhaustive\<close>.
\<close>

subsection \<open>Array operations\<close>

lemma range_list_indices:
  assumes "index \<le> length input"
  shows "range_list (int index) (int (length input)) = Some (map int [index..<length input])"
proof -
  have "map (\<lambda>k. int k + int index) [0..<length input - index] = map int [index..<length input]"
    by (rule nth_equalityI) (simp_all add: add.commute)
  moreover have "nat (int (length input) - int index) = length input - index"
    by simp
  ultimately show ?thesis
    using assms by (simp add: range_list_def)
qed

lemma indexOf_takeWhile:
  "v \<in> set xs \<Longrightarrow> indexOf xs v = int (length (takeWhile (\<lambda>x. x \<noteq> v) xs))"
  by (induction xs) (auto simp: Let_def)

lemma splice_at_nat:
  "k \<le> length xs \<Longrightarrow> splice_at xs (int k) n = take k xs @ drop (k + n) xs"
  by (simp add: splice_at_def Let_def min_def)

lemma take_drop_remove1:
  "v \<in> set xs \<Longrightarrow>
   take (length (takeWhile (\<lambda>x. x \<noteq> v) xs)) xs
     @ drop (Suc (length (takeWhile (\<lambda>x. x \<noteq> v) xs))) xs = remove1 v xs"
  by (induction xs) auto

lemma splice_indexOf:
  assumes "v \<in> set xs"
  shows "splice_at xs (indexOf xs v) (if indexOf xs v \<noteq> - 1 then 1 else 0) = remove1 v xs"
proof -
  let ?k = "length (takeWhile (\<lambda>x. x \<noteq> v) xs)"
  have k: "indexOf xs v = int ?k"
    using assms by (rule indexOf_takeWhile)
  have "?k \<le> length xs"
    by (rule length_takeWhile_le)
  then have "splice_at xs (int ?k) 1 = take ?k xs @ drop (?k + 1) xs"
    by (rule splice_at_nat)
  with assms show ?thesis
    by (simp add: k take_drop_remove1)
qed

lemma remove1_pushed:
  assumes "distinct input" and "i < length input"
  shows "sorted ks \<Longrightarrow> \<forall>k\<in>set ks. k \<le> i \<Longrightarrow>
         remove1 (input ! i) (map ((!) input) ks @ [input ! i]) = map ((!) input) ks"
proof (induction ks)
  case Nil
  show ?case by simp
next
  case (Cons k ks)
  show ?case
  proof (cases "k = i")
    case True
    with Cons.prems have "\<forall>j\<in>set ks. j = i"
      by (auto intro: order.antisym)
    then have "map ((!) input) ks = replicate (length ks) (input ! i)"
      by (simp add: map_replicate_const [symmetric] cong: map_cong)
    then show ?thesis
      using True by (simp add: replicate_append_same)
  next
    case False
    moreover from Cons.prems have "k < length input"
      using assms(2) by simp
    ultimately have "input ! k \<noteq> input ! i"
      using assms by (simp add: nth_eq_iff_index_eq)
    with Cons show ?thesis by simp
  qed
qed

lemma valid_Nil: "valid input index sumv [] \<longleftrightarrow> sumv = 0"
  by (auto simp: valid_def)

lemma valid_Cons:
  "valid input index sumv (i # js) \<longleftrightarrow>
     index \<le> i \<and> i < length input \<and> valid input i (sumv - input ! i) js"
  by (auto simp: valid_def)

lemma valid_sum_nonneg:
  assumes "\<forall>x\<in>set input. 0 < x" and "valid input index sumv js"
  shows "0 \<le> sumv" and "js \<noteq> [] \<Longrightarrow> 0 < sumv"
proof -
  have pos: "\<forall>j\<in>set js. 0 < input ! j"
    using assms by (auto simp: valid_def)
  have s: "sumv = sum_list (map ((!) input) js)"
    using assms(2) by (simp add: valid_def)
  show "0 \<le> sumv"
    unfolding s using pos by (intro sum_list_nonneg) auto
  show "0 < sumv" if "js \<noteq> []"
  proof (cases js)
    case Nil
    with that show ?thesis by simp
  next
    case (Cons a list)
    have "0 \<le> sum_list (map ((!) input) list)"
      using pos Cons by (intro sum_list_nonneg) auto
    moreover have "0 < input ! a"
      using pos Cons by simp
    ultimately show ?thesis
      unfolding s Cons by simp
  qed
qed

subsection \<open>The search records every solution once\<close>

lemma results_append: "results input temp (jss @ jss') = results input temp jss @ results input temp jss'"
  by (simp add: results_def)

lemma results_push:
  "results input (temp @ [input ! i]) jss = results input temp (map ((#) i) jss)"
  by (simp add: results_def)

lemma forLoop_results:
  assumes dist: "distinct input" and pos: "\<forall>x\<in>set input. 0 < x"
    and find: "\<And>sumv index acc ks r.
      findNumbers n input sumv index (acc, map ((!) input) ks) = Some r \<Longrightarrow>
      index \<le> length input \<Longrightarrow> sorted ks \<Longrightarrow> \<forall>k\<in>set ks. k \<le> index \<Longrightarrow>
      \<exists>jss. r = Inr (acc @ results input (map ((!) input) ks) jss, map ((!) input) ks)
        \<and> distinct jss \<and> set jss = {js. valid input index sumv js}"
  shows "forLoop n input sumv rest (acc, map ((!) input) ks) = Some r \<Longrightarrow>
    distinct rest \<Longrightarrow> \<forall>i\<in>set rest. i < length input \<Longrightarrow>
    sorted ks \<Longrightarrow> \<forall>k\<in>set ks. \<forall>i\<in>set rest. k \<le> i \<Longrightarrow>
    \<exists>jss. r = Inr (acc @ results input (map ((!) input) ks) jss, map ((!) input) ks)
      \<and> distinct jss
      \<and> set jss = {i # js | i js. i \<in> set rest \<and> valid input i (sumv - input ! i) js}"
proof (induction rest arbitrary: acc r)
  case Nil
  then have "r = Inr (acc @ results input (map ((!) input) ks) [], map ((!) input) ks)"
    by (simp add: results_def)
  then show ?case by fastforce
next
  case (Cons i rest)
  let ?temp = "map ((!) input) ks"
  let ?x = "input ! i"
  have i: "i < length input" and ks_i: "\<forall>k\<in>set ks. k \<le> i"
    using Cons.prems by simp_all
  have rest: "distinct rest" "\<forall>i\<in>set rest. i < length input"
    "\<forall>k\<in>set ks. \<forall>i\<in>set rest. k \<le> i" and i_rest: "i \<notin> set rest"
    using Cons.prems by simp_all
  show ?case
  proof (cases "0 \<le> sumv - ?x")
    case True
    from Cons.prems(1) True obtain r1 where
      find1: "findNumbers n input (sumv - ?x) i (acc, ?temp @ [?x]) = Some r1"
      by (cases "findNumbers n input (sumv - ?x) i (acc, ?temp @ [?x])") simp_all
    have push: "?temp @ [?x] = map ((!) input) (ks @ [i])"
      by simp
    have "sorted (ks @ [i])"
      using Cons.prems(4) ks_i by (simp add: sorted_append)
    moreover have "\<forall>k\<in>set (ks @ [i]). k \<le> i"
      using ks_i by simp
    ultimately obtain jss1 where
      r1: "r1 = Inr (acc @ results input (?temp @ [?x]) jss1, ?temp @ [?x])"
      and d1: "distinct jss1"
      and s1: "set jss1 = {js. valid input i (sumv - ?x) js}"
      using find [OF find1 [unfolded push]] i unfolding push by auto
    have undo: "splice_at (?temp @ [?x]) (indexOf (?temp @ [?x]) ?x)
                  (if indexOf (?temp @ [?x]) ?x \<noteq> - 1 then 1 else 0) = ?temp"
      using remove1_pushed [OF dist i Cons.prems(4) ks_i]
      by (simp add: splice_indexOf)
    have "forLoop n input sumv rest (acc @ results input (?temp @ [?x]) jss1, ?temp) = Some r"
      using Cons.prems(1) True find1 undo by (simp add: r1 Let_def)
    from Cons.IH [OF this rest(1,2) Cons.prems(4) rest(3)] obtain jss2 where
      r: "r = Inr ((acc @ results input (?temp @ [?x]) jss1) @ results input ?temp jss2, ?temp)"
      and d2: "distinct jss2"
      and s2: "set jss2 = {i # js | i js. i \<in> set rest \<and> valid input i (sumv - input ! i) js}"
      by blast
    let ?jss = "map ((#) i) jss1 @ jss2"
    have "r = Inr (acc @ results input ?temp ?jss, ?temp)"
      by (simp add: r results_push results_append)
    moreover have "distinct ?jss"
      using d1 d2 s2 i_rest by (auto simp: distinct_map)
    moreover have "set ?jss =
        {j # js | j js. j \<in> set (i # rest) \<and> valid input j (sumv - input ! j) js}"
      unfolding set_append set_map s1 s2 by auto
    ultimately show ?thesis by blast
  next
    case False
    then have "forLoop n input sumv rest (acc, ?temp) = Some r"
      using Cons.prems(1) by simp
    from Cons.IH [OF this rest(1,2) Cons.prems(4) rest(3)] obtain jss2 where
      r: "r = Inr (acc @ results input ?temp jss2, ?temp)"
      and d2: "distinct jss2"
      and s2: "set jss2 = {i # js | i js. i \<in> set rest \<and> valid input i (sumv - input ! i) js}"
      by blast
    have none: "\<not> valid input i (sumv - ?x) js" for js
      using valid_sum_nonneg(1) [OF pos, of i "sumv - ?x" js] False by auto
    have "set jss2 =
        {j # js | j js. j \<in> set (i # rest) \<and> valid input j (sumv - input ! j) js}"
      unfolding s2 using none by auto
    with r d2 show ?thesis by blast
  qed
qed

lemma valid_nonzero:
  "sumv \<noteq> 0 \<Longrightarrow>
   {js. valid input index sumv js}
   = {i # js | i js. i \<in> set [index..<length input] \<and> valid input i (sumv - input ! i) js}"
proof (intro set_eqI iffI; clarify)
  fix js
  assume "sumv \<noteq> 0" and v: "valid input index sumv js"
  then obtain i js' where js: "js = i # js'"
    by (cases js) (auto simp: valid_Nil)
  with v show "\<exists>i js'. js = i # js' \<and> i \<in> set [index..<length input]
      \<and> valid input i (sumv - input ! i) js'"
    by (auto simp: valid_Cons)
next
  fix i js
  assume "i \<in> set [index..<length input]" and "valid input i (sumv - input ! i) js"
  then show "valid input index sumv (i # js)"
    by (simp add: valid_Cons)
qed

lemma findNumbers_results:
  assumes dist: "distinct input" and pos: "\<forall>x\<in>set input. 0 < x"
  shows "findNumbers n input sumv index (acc, map ((!) input) ks) = Some r \<Longrightarrow>
      index \<le> length input \<Longrightarrow> sorted ks \<Longrightarrow> \<forall>k\<in>set ks. k \<le> index \<Longrightarrow>
      \<exists>jss. r = Inr (acc @ results input (map ((!) input) ks) jss, map ((!) input) ks)
        \<and> distinct jss \<and> set jss = {js. valid input index sumv js}"
proof (induction n arbitrary: sumv index acc ks r)
  case 0
  then show ?case by simp
next
  case (Suc n)
  let ?temp = "map ((!) input) ks"
  show ?case
  proof (cases "sumv = 0")
    case True
    with Suc.prems(1) have "r = Inr (acc @ results input ?temp [[]], ?temp)"
      by (simp add: results_def)
    moreover have "{js. valid input index sumv js} = {[]}"
    proof -
      have "js = []" if "valid input index 0 js" for js
        using valid_sum_nonneg(2) [OF pos that] by auto
      then show ?thesis
        using True by (auto simp: valid_Nil)
    qed
    ultimately show ?thesis
      by (intro exI [of _ "[[]]"]) simp
  next
    case False
    have loop: "forLoop n input sumv [index..<length input] (acc, ?temp) = Some r"
      using Suc.prems(1,2) False by (simp add: range_list_indices comp_def)
    have above: "\<forall>k\<in>set ks. \<forall>i\<in>set [index..<length input]. k \<le> i"
      using Suc.prems(4) by auto
    have d: "distinct [index..<length input]"
      and b: "\<forall>i\<in>set [index..<length input]. i < length input"
      by simp_all
    show ?thesis
      unfolding valid_nonzero [OF False]
      by (rule forLoop_results [OF dist pos Suc.IH loop d b Suc.prems(3) above])
  qed
qed

text \<open>Enough fuel: on positive elements the search returns.\<close>

lemma forLoop_returns:
  assumes pos: "\<forall>x\<in>set input. 0 < x"
    and find: "\<And>sumv index st. nat sumv < n \<Longrightarrow> index \<le> length input \<Longrightarrow>
      \<exists>r. findNumbers n input sumv index st = Some (Inr r)"
  shows "nat sumv \<le> n \<Longrightarrow> \<forall>i\<in>set rest. i < length input \<Longrightarrow>
    \<exists>r. forLoop n input sumv rest st = Some (Inr r)"
proof (induction rest arbitrary: st)
  case Nil
  show ?case by (cases st) simp
next
  case (Cons i rest)
  obtain acc temp where st: "st = (acc, temp)"
    by (cases st)
  have i: "i < length input"
    using Cons.prems by simp
  then have x: "0 < input ! i"
    using pos by simp
  show ?case
  proof (cases "0 \<le> sumv - input ! i")
    case True
    with x Cons.prems(1) have "nat (sumv - input ! i) < n"
      by linarith
    then obtain acc' temp' where
      "findNumbers n input (sumv - input ! i) i (acc, temp @ [input ! i]) = Some (Inr (acc', temp'))"
      using find [where sumv = "sumv - input ! i" and index = i
          and st = "(acc, temp @ [input ! i])"] i by auto
    then show ?thesis
      using True Cons.IH [OF Cons.prems(1)] Cons.prems(2) by (simp add: st Let_def)
  next
    case False
    then show ?thesis
      using Cons.IH [OF Cons.prems(1)] Cons.prems(2) by (simp add: st)
  qed
qed

lemma findNumbers_returns:
  assumes pos: "\<forall>x\<in>set input. 0 < x"
  shows "nat sumv < n \<Longrightarrow> index \<le> length input \<Longrightarrow>
    \<exists>r. findNumbers n input sumv index st = Some (Inr r)"
proof (induction n arbitrary: sumv index st)
  case 0
  then show ?case by simp
next
  case (Suc n)
  obtain acc temp where st: "st = (acc, temp)"
    by (cases st)
  show ?case
  proof (cases "sumv = 0")
    case True
    then show ?thesis by (simp add: st)
  next
    case False
    have "nat sumv \<le> n"
      using Suc.prems(1) by simp
    then have "\<exists>r. forLoop n input sumv [index..<length input] st = Some (Inr r)"
      using forLoop_returns [OF pos Suc.IH,
          where sumv = sumv and rest = "[index..<length input]" and st = st] by simp
    then show ?thesis
      using False Suc.prems(2) by (simp add: st range_list_indices comp_def)
  qed
qed

subsection \<open>\<open>findAllCombinations\<close>\<close>

lemma new_Set_foldl:
  "set (foldl (\<lambda>s x. if x \<in> set s then s else s @ [x]) s xs) = set s \<union> set xs
   \<and> (distinct s \<longrightarrow> distinct (foldl (\<lambda>s x. if x \<in> set s then s else s @ [x]) s xs))"
  by (induction xs arbitrary: s) auto

lemma set_new_Set: "set (new_Set xs) = set xs"
  using new_Set_foldl [of "[]" xs] by (simp add: new_Set_def)

lemma distinct_new_Set: "distinct (new_Set xs)"
  using new_Set_foldl [of "[]" xs] by (simp add: new_Set_def)

lemma set_sorted_input: "set (sort_default (new_Set xs)) = set xs"
  by (simp add: sort_default_def set_new_Set)

lemma distinct_sorted_input: "distinct (sort_default (new_Set xs))"
  by (simp add: sort_default_def distinct_new_Set)

lemma findAllCombinations_indices:
  assumes pos: "\<forall>x\<in>set input. 0 < x" and fuel: "nat sumv < fuel"
  shows "\<exists>jss. findAllCombinations fuel input sumv maxLength
            = Some (Inr (map (map ((!) (sort_default (new_Set input)))) jss))
          \<and> distinct jss
          \<and> set jss = {js. valid (sort_default (new_Set input)) 0 sumv js
                           \<and> int (length js) = maxLength}"
proof -
  let ?inp = "sort_default (new_Set input)"
  have pos': "\<forall>x\<in>set ?inp. 0 < x"
    using pos by (simp add: set_sorted_input)
  obtain r where run: "findNumbers fuel ?inp sumv 0 ([], map ((!) ?inp) []) = Some (Inr r)"
    using findNumbers_returns [OF pos' fuel, of 0 "([], [])"] by auto
  from findNumbers_results [OF distinct_sorted_input pos' run]
  obtain jss where r: "r = (results ?inp [] jss, [])" and d: "distinct jss"
    and s: "set jss = {js. valid ?inp 0 sumv js}"
    by auto
  let ?jss = "filter (\<lambda>js. int (length js) = maxLength) jss"
  have "filter (\<lambda>combo. int (length combo) = maxLength) (results ?inp [] jss)
        = map (map ((!) ?inp)) ?jss"
    by (simp add: results_def filter_map comp_def)
  then have "findAllCombinations fuel input sumv maxLength = Some (Inr (map (map ((!) ?inp)) ?jss))"
    using run by (simp add: findAllCombinations_def r)
  moreover have "distinct ?jss"
    using d by simp
  moreover have "set ?jss = {js. valid ?inp 0 sumv js \<and> int (length js) = maxLength}"
    using s by auto
  ultimately show ?thesis by blast
qed

lemma sorted_map_nth:
  "sorted xs \<Longrightarrow> sorted js \<Longrightarrow> \<forall>j\<in>set js. j < length xs \<Longrightarrow> sorted (map ((!) xs) js)"
  for xs :: "int list"
  by (induction js) (auto intro: sorted_nth_mono)

lemma default_lengths:
  "irange MIN_LENGTH (TOTAL_LENGTH - MIN_LENGTH * (SEGMENTS - 1)) = Some [12..48]"
  by code_simp

lemma default_sorted_input: "sort_default (new_Set [12..48]) = [12..48]"
  by code_simp

lemma possibleArmLengths_default:
  "possibleArmLengths fuel = findAllCombinations fuel [12..48] 72 3"
  unfolding possibleArmLengths_def default_lengths
  by (simp only: option.case TOTAL_LENGTH_def SEGMENTS_def)

text \<open>
  The default run: the search returns, \<open>[24, 24, 24]\<close> is among the combinations, and
  every combination has three elements that add up to 72.
\<close>

lemma default_search:
  assumes "72 < fuel"
  shows "\<exists>combos. findAllCombinations fuel [12..48] 72 3 = Some (Inr combos)
          \<and> [24, 24, 24] \<in> set combos
          \<and> (\<forall>c\<in>set combos. length c = 3 \<and> sum_list c = 72)"
proof -
  have pos: "\<forall>x\<in>set [12..48]. (0::int) < x"
    by simp
  have fuel: "nat 72 < fuel"
    using assms by simp
  from findAllCombinations_indices [OF pos fuel, of 3]
  obtain jss where
    run: "findAllCombinations fuel [12..48] 72 3 = Some (Inr (map (map ((!) [12..48])) jss))"
    and s: "set jss = {js. valid [12..48] 0 72 js \<and> int (length js) = 3}"
    unfolding default_sorted_input by blast
  have "valid [12..48] 0 72 [12, 12, 12]"
    by (simp add: valid_def)
  then have "[12, 12, 12] \<in> set jss"
    by (simp add: s)
  then have "map ((!) [12..48]) [12, 12, 12] \<in> set (map (map ((!) [12..48])) jss)"
    unfolding set_map by (rule imageI)
  then have mem: "[24, 24, 24] \<in> set (map (map ((!) [12..48])) jss)"
    by simp
  have props: "\<forall>c\<in>set (map (map ((!) [12..48])) jss). length c = 3 \<and> sum_list c = 72"
    using s by (auto simp: valid_def)
  show ?thesis
    by (intro exI conjI) (rule run, rule mem, rule props)
qed

subsection \<open>A deeper call stack\<close>




subsection \<open>The combinations as sequences of values\<close>

text \<open>
  Whatever the order of the sorted input: on positive integers up to
  \<open>MAX_SAFE_INTEGER\<close> the combinations returned are pairwise different, have the required
  length, take their elements from the domain and add up to the target sum.
\<close>

lemma map_nth_inj:
  assumes "distinct xs" and "\<forall>j\<in>set js. j < length xs" and "\<forall>j\<in>set js'. j < length xs"
    and "map ((!) xs) js = map ((!) xs) js'"
  shows "js = js'"
proof -
  have "inj_on ((!) xs) {..<length xs}"
    using assms(1) by (simp add: inj_on_nth)
  then have "inj_on ((!) xs) (set js \<union> set js')"
    by (rule inj_on_subset) (use assms(2,3) in auto)
  then show ?thesis
    using assms(4) by (simp add: inj_on_map_eq_map)
qed

lemma combinations_sound:
  assumes safe: "\<forall>x\<in>set input. 0 < x \<and> x \<le> MAX_SAFE_INTEGER"
    and safe_sum: "\<bar>sumv\<bar> \<le> MAX_SAFE_INTEGER" and fuel: "nat sumv < fuel"
  shows "\<exists>combos. findAllCombinations fuel input sumv maxLength = Some (Inr combos)
          \<and> distinct combos
          \<and> (\<forall>combo\<in>set combos. int (length combo) = maxLength \<and> set combo \<subseteq> set input
                \<and> sum_list combo = sumv)"
proof -
  let ?inp = "sort_default (new_Set input)"
  from safe have pos: "\<forall>x\<in>set input. 0 < x"
    by simp
  from findAllCombinations_indices [OF pos fuel, of maxLength]
  obtain jss where
    run: "findAllCombinations fuel input sumv maxLength = Some (Inr (map (map ((!) ?inp)) jss))"
    and d: "distinct jss"
    and s: "set jss = {js. valid ?inp 0 sumv js \<and> int (length js) = maxLength}"
    by blast
  have bounds: "\<forall>j\<in>set js. j < length ?inp" if "js \<in> set jss" for js
    using that s by (auto simp: valid_def)
  have "inj_on (map ((!) ?inp)) (set jss)"
    by (rule inj_onI) (rule map_nth_inj [OF distinct_sorted_input], auto dest: bounds)
  with d have "distinct (map (map ((!) ?inp)) jss)"
    by (simp add: distinct_map)
  moreover have "int (length (map ((!) ?inp) js)) = maxLength
      \<and> set (map ((!) ?inp) js) \<subseteq> set input \<and> sum_list (map ((!) ?inp) js) = sumv"
    if "js \<in> set jss" for js
  proof -
    have "set (map ((!) ?inp) js) \<subseteq> set ?inp"
      using bounds [OF that] by auto
    then show ?thesis
      using that s by (auto simp: valid_def set_sorted_input)
  qed
  ultimately show ?thesis
    using run by (intro exI [of _ "map (map ((!) ?inp)) jss"]) auto
qed

text \<open>
  Where the default sort leaves the domain in numeric order, the result is exactly the
  ascending sequences over the domain of the required length and sum, each once; the
  strictly increasing ones are among them.
\<close>

lemma indices_of_values:
  "set vs \<subseteq> set xs \<Longrightarrow> \<exists>js. vs = map ((!) xs) js \<and> (\<forall>j\<in>set js. j < length xs)"
proof (induction vs)
  case Nil
  show ?case by simp
next
  case (Cons v vs)
  then obtain js where js: "vs = map ((!) xs) js" "\<forall>j\<in>set js. j < length xs"
    by auto
  from Cons.prems obtain j where "j < length xs" "xs ! j = v"
    by (auto simp: in_set_conv_nth)
  with js show ?case
    by (intro exI [of _ "j # js"]) simp
qed

lemma sorted_indices:
  fixes xs :: "int list"
  assumes "sorted xs" and "distinct xs"
  shows "\<forall>j\<in>set js. j < length xs \<Longrightarrow> sorted (map ((!) xs) js) \<Longrightarrow> sorted js"
proof (induction js)
  case Nil
  show ?case by simp
next
  case (Cons j js)
  have strict: "sorted_wrt (<) xs"
    using assms by (simp add: strict_sorted_iff)
  have "j \<le> k" if "k \<in> set js" for k
  proof (rule ccontr)
    assume "\<not> j \<le> k"
    then have "k < j" by simp
    moreover have "j < length xs"
      using Cons.prems(1) by simp
    ultimately have "xs ! k < xs ! j"
      using strict by (simp add: sorted_wrt_nth_less)
    moreover have "xs ! j \<le> xs ! k"
      using Cons.prems(2) that by auto
    ultimately show False by simp
  qed
  with Cons show ?case by auto
qed

lemma combinations_exhaustive:
  assumes safe: "\<forall>x\<in>set input. 0 < x \<and> x \<le> MAX_SAFE_INTEGER"
    and safe_sum: "\<bar>sumv\<bar> \<le> MAX_SAFE_INTEGER"
    and srt: "sorted (sort_default (new_Set input))" and fuel: "nat sumv < fuel"
  shows "\<exists>combos. findAllCombinations fuel input sumv maxLength = Some (Inr combos)
          \<and> distinct combos
          \<and> set combos = {vs. sorted vs \<and> set vs \<subseteq> set input \<and> sum_list vs = sumv
                              \<and> int (length vs) = maxLength}"
proof -
  let ?inp = "sort_default (new_Set input)"
  from safe have pos: "\<forall>x\<in>set input. 0 < x"
    by simp
  from findAllCombinations_indices [OF pos fuel, of maxLength]
  obtain jss where
    run: "findAllCombinations fuel input sumv maxLength = Some (Inr (map (map ((!) ?inp)) jss))"
    and s: "set jss = {js. valid ?inp 0 sumv js \<and> int (length js) = maxLength}"
    by blast
  from combinations_sound [OF safe safe_sum fuel, of maxLength] run
  have d: "distinct (map (map ((!) ?inp)) jss)"
    and sound: "\<forall>combo\<in>set (map (map ((!) ?inp)) jss). int (length combo) = maxLength
        \<and> set combo \<subseteq> set input \<and> sum_list combo = sumv"
    by auto
  have "set (map (map ((!) ?inp)) jss) = {vs. sorted vs \<and> set vs \<subseteq> set input
      \<and> sum_list vs = sumv \<and> int (length vs) = maxLength}" (is "?L = ?R")
  proof (intro set_eqI iffI)
    fix vs
    assume vs: "vs \<in> ?L"
    then obtain js where js: "js \<in> set jss" "vs = map ((!) ?inp) js"
      by auto
    then have "sorted vs"
      using s srt by (auto simp: valid_def intro!: sorted_map_nth)
    moreover from sound vs have "int (length vs) = maxLength \<and> set vs \<subseteq> set input
        \<and> sum_list vs = sumv"
      by (rule bspec)
    ultimately show "vs \<in> ?R"
      by simp
  next
    fix vs
    assume "vs \<in> ?R"
    then have vs: "sorted vs" "set vs \<subseteq> set ?inp" "sum_list vs = sumv" "int (length vs) = maxLength"
      by (simp_all add: set_sorted_input)
    from indices_of_values [OF vs(2)] obtain js where
      js: "vs = map ((!) ?inp) js" "\<forall>j\<in>set js. j < length ?inp"
      by blast
    have "sorted js"
      using sorted_indices [OF srt distinct_sorted_input js(2)] vs(1) js(1) by simp
    with js vs have "js \<in> set jss"
      by (simp add: s valid_def)
    with js(1) show "vs \<in> ?L"
      by auto
  qed
  with run d show ?thesis by blast
qed

subsection \<open>Order within a combination\<close>







text \<open>
  C4, at a domain that the default sort does not leave in numeric order. \<open>sort()\<close>
  compares \<open>"10"\<close> and \<open>"9"\<close> as strings and puts 10 first; the one combination of two
  elements of \<open>{9, 10}\<close> with sum 19 is returned as \<open>[10, 9]\<close>, and the strictly
  increasing sequence \<open>[9, 10]\<close> is not in the result. (Where the sort is numeric,
  \<open>combinations_exhaustive\<close> above gives every strictly increasing sequence of the
  required length and sum, once.)
\<close>

theorem findAllCombinations_string_order:
  "findAllCombinations 20 [9, 10] 19 2 = Some (Inr [[10, 9]])
   \<and> [9, 10] \<notin> set (produced (findAllCombinations 20 [9, 10] 19 2))
   \<and> sort_default (new_Set [9, 10]) = [10, 9]"
proof -
  have run: "findAllCombinations 20 [9, 10] 19 2 = Some (Inr [[10, 9]])"
    by code_simp
  have "sort_default (new_Set [9, 10]) = [10, 9]"
    by code_simp
  then show ?thesis
    by (simp add: run produced_def)
qed

section \<open>Properties of the configuration search\<close>

subsection \<open>Ranking\<close>

lemma sorted_key_bounds:
  assumes "x \<in> set xs" and "sorted (map f xs)"
  shows "f (xs ! 0) \<le> f x" and "f x \<le> f (xs ! (length xs - 1))"
proof -
  from assms(1) obtain i where i: "i < length xs" "xs ! i = x"
    by (auto simp: in_set_conv_nth)
  have ne: "0 < length xs"
    using i(1) by (cases xs) simp_all
  have "map f xs ! 0 \<le> map f xs ! i"
    using assms(2) i(1) by (intro sorted_nth_mono) simp_all
  then show "f (xs ! 0) \<le> f x"
    using i ne by simp
  have "map f xs ! i \<le> map f xs ! (length xs - 1)"
    using assms(2) i(1) by (intro sorted_nth_mono) simp_all
  then show "f x \<le> f (xs ! (length xs - 1))"
    using i by simp
qed

lemma ranking_bounds:
  assumes "arm \<in> set arms"
  shows "\<exists>b w. bestArm (sort_by_torque arms) = Some b \<and> worstArm (sort_by_torque arms) = Some w
     \<and> getTorqueAtBase b \<le> getTorqueAtBase arm \<and> getTorqueAtBase arm \<le> getTorqueAtBase w"
proof -
  from assms have mem: "arm \<in> set (sort_by_torque arms)"
    by (simp add: sort_by_torque_def)
  then have ne: "sort_by_torque arms \<noteq> []"
    by auto
  have srt: "sorted (map getTorqueAtBase (sort_by_torque arms))"
    by (simp add: sort_by_torque_def)
  show ?thesis
    using sorted_key_bounds [OF mem srt] ne by (simp add: bestArm_def worstArm_def)
qed


subsection \<open>The symmetric configuration\<close>

text \<open>The orderings of a list of \<open>k\<close> elements are \<open>k!\<close> lists.\<close>

lemma length_interleave: "length (interleave x xs) = Suc (length xs)"
  by (induction xs) simp_all

lemma sum_list_const:
  "\<forall>x\<in>set xs. f x = (c::nat) \<Longrightarrow> sum_list (map f xs) = length xs * c"
  by (induction xs) simp_all

lemma length_permutation_member:
  "ys \<in> set (permutation xs) \<Longrightarrow> length ys = length xs"
proof (induction xs arbitrary: ys)
  case Nil
  then show ?case by simp
next
  case (Cons x xs)
  then obtain zs where "zs \<in> set (permutation xs)" "ys \<in> set (interleave x zs)"
    by auto
  moreover have "length ys = Suc (length zs)" if "ys \<in> set (interleave x zs)" for zs
    using that by (induction zs arbitrary: ys) auto
  ultimately show ?case
    using Cons.IH by auto
qed

lemma length_permutation: "length (permutation xs) = fact (length xs)"
proof (induction xs)
  case Nil
  show ?case by simp
next
  case (Cons x xs)
  have "length (permutation (x # xs))
        = sum_list (map (\<lambda>zs. length (interleave x zs)) (permutation xs))"
    by (simp add: length_concat comp_def)
  also have "\<dots> = length (permutation xs) * Suc (length xs)"
    by (rule sum_list_const) (simp add: length_interleave length_permutation_member)
  finally show ?case
    using Cons.IH by (simp add: mult.commute)
qed

lemma interleave_props:
  fixes x :: int
  shows "ys \<in> set (interleave x xs) \<Longrightarrow> length ys = Suc (length xs) \<and> sum_list ys = x + sum_list xs"
  by (induction xs arbitrary: ys) auto

lemma permutation_props:
  fixes xs :: "int list"
  shows "ys \<in> set (permutation xs) \<Longrightarrow> length ys = length xs \<and> sum_list ys = sum_list xs"
proof (induction xs arbitrary: ys)
  case Nil
  then show ?case by simp
next
  case (Cons x xs)
  from Cons.prems obtain zs where "zs \<in> set (permutation xs)" "ys \<in> set (interleave x zs)"
    by auto
  with Cons.IH [of zs] interleave_props [of ys x zs] show ?case
    by simp
qed

lemma interleave_head: "x # xs \<in> set (interleave x xs)"
  by (cases xs) simp_all

lemma permutation_self: "xs \<in> set (permutation xs)"
  by (induction xs) (auto intro: interleave_head)

lemma isSymmetric_three:
  "isSymmetric (newArm [a, b, c]) = Inr (a = b \<and> b = c)"
  by (simp add: newArm_components segment_values)

lemma find_first_found:
  assumes "\<forall>x\<in>set xs. \<exists>b. p x = Inr b" and "\<exists>x\<in>set xs. p x = Inr True"
  shows "\<exists>y. find_first p xs = Inr (Some y) \<and> y \<in> set xs \<and> p y = Inr True"
  using assms
proof (induction xs)
  case Nil
  then show ?case by simp
next
  case (Cons x xs)
  from Cons.prems(1) obtain b where b: "p x = Inr b"
    by auto
  show ?case
  proof (cases b)
    case True
    with b show ?thesis by simp
  next
    case False
    with b Cons.prems have "\<forall>x\<in>set xs. \<exists>b. p x = Inr b" "\<exists>x\<in>set xs. p x = Inr True"
      by auto
    from Cons.IH [OF this] b False show ?thesis
      by auto
  qed
qed

lemma arms_of_default:
  assumes "[24, 24, 24] \<in> set combos"
    and "\<forall>c\<in>set combos. length c = 3 \<and> sum_list c = 72"
  shows "newArm [24, 24, 24] \<in> set (arms_of combos)"
    and "\<forall>arm\<in>set (arms_of combos).
           \<exists>a b c. arm = newArm [real_of_int a, real_of_int b, real_of_int c] \<and> a + b + c = 72"
proof -
  have "[24, 24, 24] \<in> set (concat (map permutation combos))"
    using assms(1) permutation_self [of "[24, 24, 24 :: int]"] by (simp del: permutation.simps) blast
  then have "newArm (map real_of_int [24, 24, 24]) \<in> set (arms_of combos)"
    unfolding arms_of_def Let_def by (simp del: permutation.simps list.map)
  then show "newArm [24, 24, 24] \<in> set (arms_of combos)"
    by simp
  show "\<forall>arm\<in>set (arms_of combos).
           \<exists>a b c. arm = newArm [real_of_int a, real_of_int b, real_of_int c] \<and> a + b + c = 72"
  proof
    fix arm
    assume "arm \<in> set (arms_of combos)"
    then obtain ls combo where arm: "arm = newArm (map real_of_int ls)"
      and "ls \<in> set (permutation combo)" "combo \<in> set combos"
      by (auto simp: arms_of_def Let_def)
    with assms(2) permutation_props [of ls combo] have "length ls = 3" "sum_list ls = 72"
      by auto
    then obtain a b c where "ls = [a, b, c]" "a + b + c = 72"
      by (cases ls; cases "tl ls"; cases "tl (tl ls)") auto
    with arm show "\<exists>a b c. arm = newArm [real_of_int a, real_of_int b, real_of_int c] \<and> a + b + c = 72"
      by auto
  qed
qed

lemma main_default:
  assumes "72 < fuel"
  shows "\<exists>b w. main fuel = Some (Inr \<lparr>best = b, worst = w,
            percent = percentDifference (getTorqueAtBase b) (getTorqueAtBase w),
            symmetric = Some (newArm [24, 24, 24])\<rparr>)"
proof -
  from default_search [OF assms] obtain combos where
    run: "possibleArmLengths fuel = Some (Inr combos)"
    and mem: "[24, 24, 24] \<in> set combos"
    and props: "\<forall>c\<in>set combos. length c = 3 \<and> sum_list c = 72"
    unfolding possibleArmLengths_default by blast
  let ?arms = "sort_by_torque (arms_of combos)"
  have set_arms: "set ?arms = set (arms_of combos)"
    by (simp add: sort_by_torque_def)
  have sym_mem: "newArm [24, 24, 24] \<in> set ?arms"
    using arms_of_default(1) [OF mem props] set_arms by simp
  have shape: "\<forall>arm\<in>set ?arms.
       \<exists>a b c. arm = newArm [real_of_int a, real_of_int b, real_of_int c] \<and> a + b + c = 72"
    using arms_of_default(2) [OF mem props] set_arms by simp
  have total: "\<forall>arm\<in>set ?arms. \<exists>r. isSymmetric arm = Inr r"
    using shape by (auto simp: isSymmetric_three simp del: isSymmetric.simps)
  have "isSymmetric (newArm [24, 24, 24]) = Inr True"
    by (simp add: isSymmetric_three del: isSymmetric.simps)
  with sym_mem have "\<exists>arm\<in>set ?arms. isSymmetric arm = Inr True"
    by blast
  from find_first_found [OF total this] obtain y where
    found: "find_first isSymmetric ?arms = Inr (Some y)" and y: "y \<in> set ?arms"
    and sy: "isSymmetric y = Inr True"
    by blast
  from shape y obtain a b c where
    abc: "y = newArm [real_of_int a, real_of_int b, real_of_int c]" "a + b + c = 72"
    by blast
  with sy have "a = b \<and> b = c"
    by (simp add: isSymmetric_three del: isSymmetric.simps)
  with abc have "y = newArm [24, 24, 24]"
    by simp
  with found have found': "find_first isSymmetric ?arms = Inr (Some (newArm [24, 24, 24]))"
    by simp
  have "?arms \<noteq> []"
    using sym_mem by auto
  then obtain b w where bw: "bestArm ?arms = Some b" "worstArm ?arms = Some w"
    by (simp add: bestArm_def worstArm_def)
  show ?thesis
    by (intro exI [of _ b] exI [of _ w]) (simp add: main_def run Let_def bw found')
qed

text \<open>
  C2 (as the code has it). For the default run parameters (\<open>SEGMENTS\<close> = 3,
  \<open>TOTAL_LENGTH\<close> = 72, \<open>MIN_LENGTH\<close> = 12) the partition \<open>[24, 24, 24]\<close> is generated,
  and the symmetric-configuration lookup returns the arm built from it, whose three
  segments all have length 24.
\<close>

theorem symmetric_lookup_default:
  "72 < fuel \<Longrightarrow>
   symmetricArm fuel = Some (Inr (Some (newArm [24, 24, 24])))
   \<and> map getLength (components (newArm [24, 24, 24])) = [24, 24, 24, 12]"
  using main_default [of fuel]
  by (auto simp: symmetricArm_def newArm_components segment_values)

theorem symmetric_lookup_default_witness:
  "(72::nat) < 73
   \<and> symmetricArm 73 = Some (Inr (Some (newArm [24, 24, 24])))
   \<and> map getLength (components (newArm [24, 24, 24])) = [24, 24, 24, 12]"
  using symmetric_lookup_default [of 73] by simp

text \<open>
  C2 as the specification states it fails: the lookup of the default run does not
  report that no symmetric arm was found.
\<close>

theorem symmetric_not_found_counterexample:
  "symmetricArm 73 \<noteq> Some (Inr None)"
  using main_default [of 73] by (auto simp: symmetricArm_def)

subsection \<open>The extremes of a run\<close>

lemma main_ranking:
  assumes run: "main fuel = Some (Inr rep)"
    and lengths: "possibleArmLengths fuel = Some (Inr lengths)"
    and arm: "arm \<in> set (arms_of lengths)"
  shows "getTorqueAtBase (best rep) \<le> getTorqueAtBase arm
     \<and> getTorqueAtBase arm \<le> getTorqueAtBase (worst rep)"
proof -
  let ?arms = "sort_by_torque (arms_of lengths)"
  from ranking_bounds [OF arm] obtain b w where
    bw: "bestArm ?arms = Some b" "worstArm ?arms = Some w"
    and le: "getTorqueAtBase b \<le> getTorqueAtBase arm" "getTorqueAtBase arm \<le> getTorqueAtBase w"
    by blast
  from run have "best rep = b \<and> worst rep = w"
    by (auto simp: main_def lengths Let_def bw split: sum.splits)
  with le show ?thesis
    by simp
qed


text \<open>
  C6. After the arms are sorted ascending by torque at the base, with \<open>bestArm\<close> the
  first and \<open>worstArm\<close> the last element, the torque of every generated arm lies
  between the torque of \<open>bestArm\<close> and the torque of \<open>worstArm\<close>: for every list of
  arms, and so for the arms the script generates and the two extremes it reports.
\<close>

theorem ranking_correct:
  "(arm \<in> set arms \<longrightarrow>
      (\<exists>b w. bestArm (sort_by_torque arms) = Some b \<and> worstArm (sort_by_torque arms) = Some w
         \<and> getTorqueAtBase b \<le> getTorqueAtBase arm \<and> getTorqueAtBase arm \<le> getTorqueAtBase w))
   \<and> (main fuel = Some (Inr rep) \<and> possibleArmLengths fuel = Some (Inr lengths)
        \<and> arm' \<in> set (arms_of lengths) \<longrightarrow>
      getTorqueAtBase (best rep) \<le> getTorqueAtBase arm'
        \<and> getTorqueAtBase arm' \<le> getTorqueAtBase (worst rep))"
  using ranking_bounds [of arm arms] main_ranking [of fuel rep lengths arm'] by blast

theorem ranking_correct_witness:
  "newArm [] \<in> set [newArm [12], newArm []]
   \<and> (\<exists>b w. bestArm (sort_by_torque [newArm [12], newArm []]) = Some b
        \<and> worstArm (sort_by_torque [newArm [12], newArm []]) = Some w
        \<and> getTorqueAtBase b \<le> getTorqueAtBase (newArm [])
        \<and> getTorqueAtBase (newArm []) \<le> getTorqueAtBase w)
   \<and> (\<exists>rep lengths. main 73 = Some (Inr rep) \<and> possibleArmLengths 73 = Some (Inr lengths)
        \<and> newArm [24, 24, 24] \<in> set (arms_of lengths)
        \<and> getTorqueAtBase (best rep) \<le> getTorqueAtBase (newArm [24, 24, 24])
        \<and> getTorqueAtBase (newArm [24, 24, 24]) \<le> getTorqueAtBase (worst rep))"
proof -
  have h: "newArm [] \<in> set [newArm [12], newArm []]"
    by simp
  from default_search [of 73] obtain lengths where
    lengths: "possibleArmLengths 73 = Some (Inr lengths)"
    and mem: "[24, 24, 24] \<in> set lengths"
    and props: "\<forall>c\<in>set lengths. length c = 3 \<and> sum_list c = 72"
    unfolding possibleArmLengths_default by auto
  from main_default [of 73] obtain rep where rep: "main 73 = Some (Inr rep)"
    by auto
  note arm = arms_of_default(1) [OF mem props]
  from ranking_correct [of "newArm []" "[newArm [12], newArm []]" 73 rep lengths "newArm [24, 24, 24]"]
    h lengths rep arm
  show ?thesis
    by blast
qed

section \<open>Termination and the depth of the call stack\<close>

text \<open>
  Without positivity the search need not return: on the domain \<open>{0}\<close> with target
  sum 1 every call repeats itself, whatever the depth of the call stack.
\<close>

lemma findNumbers_zero_element: "findNumbers n [0] 1 0 st = None"
proof (induction n arbitrary: st)
  case 0
  show ?case by (cases st) simp
next
  case (Suc n)
  obtain acc temp where st: "st = (acc, temp)"
    by (cases st)
  have "range_list (int 0) (int (length [0::int])) = Some [0]"
    by (simp add: range_list_def)
  then show ?case
    using Suc.IH by (simp add: st del: findNumbers.simps(1) add: findNumbers.simps(2))
qed

lemma findAllCombinations_zero_element: "findAllCombinations n [0] 1 maxLength = None"
proof -
  have "sort_default (new_Set [0]) = [0]"
    by (simp add: sort_default_def new_Set_def)
  then show ?thesis
    by (simp add: findAllCombinations_def findNumbers_zero_element)
qed






end
